theory Spec2Isabelle
  imports Main
begin

section \<open>The digraph and the maps\<close>

type_synonym node = nat
type_synonym arc = nat

text \<open>
  Modelled from the spec: the digraph type \<^verbatim>\<open>GR\<close> (lemon/list_graph.h) is a template
  parameter of \<^verbatim>\<open>Suurballe\<close> and is not among the sources. The spec (section 6) gives its
  contract: nodes and arcs are handles, \<^verbatim>\<open>source\<close> and \<^verbatim>\<open>target\<close> give
  the ends of an arc, and there are four iterations (all nodes, all arcs, the outgoing and the
  incoming arcs of a node), each visiting every element once in a stable order. Here
  \<open>nodes\<close> and \<open>arcs\<close> list the handles in iteration order, and \<^verbatim>\<open>OutArcIt\<close>
  and \<^verbatim>\<open>InArcIt\<close> visit the arcs of \<open>arcs\<close> that leave or enter the node.
\<close>
record digraph =
  nodes :: "node list"
  arcs :: "arc list"
  source :: "arc \<Rightarrow> node"
  target :: "arc \<Rightarrow> node"

definition outArcs :: "digraph \<Rightarrow> node \<Rightarrow> arc list" where
  "outArcs g u = filter (\<lambda>e. source g e = u) (arcs g)"

definition inArcs :: "digraph \<Rightarrow> node \<Rightarrow> arc list" where
  "inArcs g u = filter (\<lambda>e. target g e = u) (arcs g)"

text \<open>What the digraph type guarantees of every value of it.\<close>
definition wf_digraph :: "digraph \<Rightarrow> bool" where
  "wf_digraph g \<longleftrightarrow>
     distinct (nodes g) \<and> distinct (arcs g) \<and>
     (\<forall>e \<in> set (arcs g). source g e \<in> set (nodes g) \<and> target g e \<in> set (nodes g))"

section \<open>The heap\<close>

text \<open>
  Modelled from the spec: \<^verbatim>\<open>BinHeap\<close> (lemon/bin_heap.h) is not among the sources; the
  heap concept (lemon/concepts/heap.h) and section 6 of the spec give its contract. Every
  node is in one of three states; \<^verbatim>\<open>push\<close> takes a node from \<^verbatim>\<open>PRE_HEAP\<close> to
  \<^verbatim>\<open>IN_HEAP\<close> with a priority, \<^verbatim>\<open>decrease\<close> lowers the priority, \<^verbatim>\<open>pop\<close> takes the
  top to \<^verbatim>\<open>POST_HEAP\<close>, and the top is an item of minimum priority. The cross reference
  is a node map of the digraph, so the items are nodes of \<open>nodes g\<close>; among items of
  equal priority the first in the order of \<open>nodes g\<close> is the top.
\<close>
datatype hstate = PRE_HEAP | IN_HEAP int | POST_HEAP

type_synonym heap = "node \<Rightarrow> hstate"

fun in_heap :: "hstate \<Rightarrow> bool" where
  "in_heap (IN_HEAP p) = True"
| "in_heap _ = False"

fun prio_of :: "hstate \<Rightarrow> int" where
  "prio_of (IN_HEAP p) = p"
| "prio_of _ = 0"

definition heap_items :: "digraph \<Rightarrow> heap \<Rightarrow> node list" where
  "heap_items g h = filter (\<lambda>n. in_heap (h n)) (nodes g)"

definition heap_empty :: "digraph \<Rightarrow> heap \<Rightarrow> bool" where
  "heap_empty g h \<longleftrightarrow> heap_items g h = []"

definition heap_top :: "digraph \<Rightarrow> heap \<Rightarrow> node" where
  "heap_top g h = arg_min_list (\<lambda>n. prio_of (h n)) (heap_items g h)"

definition heap_prio :: "digraph \<Rightarrow> heap \<Rightarrow> int" where
  "heap_prio g h = prio_of (h (heap_top g h))"

definition heap_push :: "node \<Rightarrow> int \<Rightarrow> heap \<Rightarrow> heap" where
  "heap_push v p h = h(v := IN_HEAP p)"

definition heap_decrease :: "node \<Rightarrow> int \<Rightarrow> heap \<Rightarrow> heap" where
  "heap_decrease v p h = h(v := IN_HEAP p)"

definition heap_pop :: "digraph \<Rightarrow> heap \<Rightarrow> heap" where
  "heap_pop g h = h(heap_top g h := POST_HEAP)"

section \<open>ResidualDijkstra\<close>

text \<open>
  \<^verbatim>\<open>Length\<close> is the value type of the length map, \<^verbatim>\<open>int\<close> by default
  (\<^verbatim>\<open>typename LEN = typename GR::template ArcMap<int>\<close>). Lengths, potentials, distances
  and heap priorities are values of this type. The language leaves the overflow of a signed
  sum undefined; the compiled code keeps the low 32 bits of every addition, subtraction and
  multiplication, read in two's complement, which \<open>wrap32\<close> writes out.
\<close>
definition wrap32 :: "int \<Rightarrow> int" where
  "wrap32 x = (x + 2147483648) mod 4294967296 - 2147483648"

text \<open>
  The members of \<^verbatim>\<open>ResidualDijkstra\<close> that \<^verbatim>\<open>run\<close> writes, with its local heap.
  \<open>None\<close> is \<^verbatim>\<open>INVALID\<close>.
\<close>
record dstate =
  heap :: heap
  d_pred :: "node \<Rightarrow> arc option"
  d_dist :: "node \<Rightarrow> int"
  proc_nodes :: "node list"

text \<open>The \<^verbatim>\<open>switch (heap.state(v))\<close> of both arc traversals, for candidate priority \<open>nd\<close>.\<close>
definition heap_label :: "node \<Rightarrow> int \<Rightarrow> arc \<Rightarrow> dstate \<Rightarrow> dstate" where
  "heap_label v nd e st =
     (case heap st v of
        PRE_HEAP \<Rightarrow> st\<lparr>heap := heap_push v nd (heap st), d_pred := (d_pred st)(v := Some e)\<rparr>
      | IN_HEAP p \<Rightarrow>
          if nd < p
          then st\<lparr>heap := heap_decrease v nd (heap st), d_pred := (d_pred st)(v := Some e)\<rparr>
          else st
      | POST_HEAP \<Rightarrow> st)"

definition scan_out ::
  "digraph \<Rightarrow> (arc \<Rightarrow> int) \<Rightarrow> (arc \<Rightarrow> int) \<Rightarrow> (node \<Rightarrow> int) \<Rightarrow> int \<Rightarrow> arc \<Rightarrow> dstate \<Rightarrow> dstate" where
  "scan_out g f l pot d e st =
     (if f e = 0
      then heap_label (target g e) (wrap32 (wrap32 (d + l e) - pot (target g e))) e st
      else st)"

definition scan_in ::
  "digraph \<Rightarrow> (arc \<Rightarrow> int) \<Rightarrow> (arc \<Rightarrow> int) \<Rightarrow> (node \<Rightarrow> int) \<Rightarrow> int \<Rightarrow> arc \<Rightarrow> dstate \<Rightarrow> dstate" where
  "scan_in g f l pot d e st =
     (if f e = 1
      then heap_label (source g e) (wrap32 (wrap32 (d - l e) - pot (source g e))) e st
      else st)"

text \<open>One pass of the body of \<^verbatim>\<open>while (!heap.empty() && heap.top() != _t)\<close>.\<close>
definition process_node ::
  "digraph \<Rightarrow> (arc \<Rightarrow> int) \<Rightarrow> (arc \<Rightarrow> int) \<Rightarrow> (node \<Rightarrow> int) \<Rightarrow> dstate \<Rightarrow> dstate" where
  "process_node g f l pot st =
     (let u = heap_top g (heap st);
          d = wrap32 (heap_prio g (heap st) + pot u);
          st1 = st\<lparr>d_dist := (d_dist st)(u := heap_prio g (heap st)),
                   heap := heap_pop g (heap st),
                   proc_nodes := proc_nodes st @ [u]\<rparr>;
          st2 = fold (scan_out g f l pot d) (outArcs g u) st1
      in fold (scan_in g f l pot d) (inArcs g u) st2)"

lemma length_filter_strict:
  "x \<in> set xs \<Longrightarrow> Q x \<Longrightarrow> \<not> P x \<Longrightarrow> (\<And>y. P y \<Longrightarrow> Q y) \<Longrightarrow>
   length (filter P xs) < length (filter Q xs)"
proof (induction xs)
  case Nil
  then show ?case by simp
next
  case (Cons a xs)
  have le: "length (filter P xs) \<le> length (filter Q xs)"
    using Cons.prems(4) by (induction xs) auto
  show ?case
  proof (cases "x = a")
    case True
    then show ?thesis using Cons.prems le by simp
  next
    case False
    then have "length (filter P xs) < length (filter Q xs)"
      using Cons by simp
    then show ?thesis using Cons.prems(4) by auto
  qed
qed

definition unfinished :: "digraph \<Rightarrow> heap \<Rightarrow> nat" where
  "unfinished g h = length (filter (\<lambda>n. h n \<noteq> POST_HEAP) (nodes g))"

lemma heap_label_post [simp]:
  "heap (heap_label v nd e st) n = POST_HEAP \<longleftrightarrow> heap st n = POST_HEAP"
  by (auto simp: heap_label_def heap_push_def heap_decrease_def split: hstate.splits)

lemma scan_out_post [simp]:
  "heap (scan_out g f l pot d e st) n = POST_HEAP \<longleftrightarrow> heap st n = POST_HEAP"
  by (simp add: scan_out_def)

lemma scan_in_post [simp]:
  "heap (scan_in g f l pot d e st) n = POST_HEAP \<longleftrightarrow> heap st n = POST_HEAP"
  by (simp add: scan_in_def)

lemma fold_scan_out_post [simp]:
  "heap (fold (scan_out g f l pot d) es st) n = POST_HEAP \<longleftrightarrow> heap st n = POST_HEAP"
  by (induction es arbitrary: st) simp_all

lemma fold_scan_in_post [simp]:
  "heap (fold (scan_in g f l pot d) es st) n = POST_HEAP \<longleftrightarrow> heap st n = POST_HEAP"
  by (induction es arbitrary: st) simp_all

lemma heap_top_in_items:
  "\<not> heap_empty g h \<Longrightarrow> heap_top g h \<in> set (heap_items g h)"
  by (simp add: heap_empty_def heap_top_def arg_min_list_in)

lemma heap_top_in_heap:
  "\<not> heap_empty g h \<Longrightarrow> in_heap (h (heap_top g h)) \<and> heap_top g h \<in> set (nodes g)"
  using heap_top_in_items [of g h] by (simp add: heap_items_def)

lemma process_node_post:
  "heap (process_node g f l pot st) n = POST_HEAP \<longleftrightarrow>
     n = heap_top g (heap st) \<or> heap st n = POST_HEAP"
  by (simp add: process_node_def Let_def heap_pop_def)

lemma unfinished_process_node:
  assumes "\<not> heap_empty g (heap st)"
  shows "unfinished g (heap (process_node g f l pot st)) < unfinished g (heap st)"
proof -
  let ?u = "heap_top g (heap st)"
  have u: "?u \<in> set (nodes g)" "heap st ?u \<noteq> POST_HEAP"
    using heap_top_in_heap [OF assms] by auto
  have "length (filter (\<lambda>n. \<not> (n = ?u \<or> heap st n = POST_HEAP)) (nodes g))
        < length (filter (\<lambda>n. heap st n \<noteq> POST_HEAP) (nodes g))"
    by (rule length_filter_strict [OF u(1)]) (use u(2) in auto)
  then show ?thesis
    by (simp add: unfinished_def process_node_post)
qed

function dijkstra_loop ::
  "digraph \<Rightarrow> (arc \<Rightarrow> int) \<Rightarrow> (arc \<Rightarrow> int) \<Rightarrow> (node \<Rightarrow> int) \<Rightarrow> node \<Rightarrow> dstate \<Rightarrow> dstate" where
  "dijkstra_loop g f l pot t st =
     (if \<not> heap_empty g (heap st) \<and> heap_top g (heap st) \<noteq> t
      then dijkstra_loop g f l pot t (process_node g f l pot st)
      else st)"
  by pat_completeness auto
termination
  by (relation "measure (\<lambda>(g, f, l, pot, t, st). unfinished g (heap st))")
     (auto intro: unfinished_process_node)

declare dijkstra_loop.simps [simp del]

text \<open>
  \<^verbatim>\<open>ResidualDijkstra::run\<close>: the result is the returned flag with the potential,
  predecessor and distance maps it leaves behind.
\<close>
definition dijkstra_run ::
  "digraph \<Rightarrow> (arc \<Rightarrow> int) \<Rightarrow> (arc \<Rightarrow> int) \<Rightarrow> (node \<Rightarrow> int) \<Rightarrow> (node \<Rightarrow> arc option) \<Rightarrow>
   (node \<Rightarrow> int) \<Rightarrow> node \<Rightarrow> node \<Rightarrow> bool \<times> (node \<Rightarrow> int) \<times> (node \<Rightarrow> arc option) \<times> (node \<Rightarrow> int)" where
  "dijkstra_run g f l pot prd dst s t =
     (let st0 = \<lparr>heap = heap_push s 0 (\<lambda>n. PRE_HEAP), d_pred = prd(s := None),
                 d_dist = dst, proc_nodes = []\<rparr>;
          st = dijkstra_loop g f l pot t st0
      in if heap_empty g (heap st) then (False, pot, d_pred st, d_dist st)
         else let t_dist = heap_prio g (heap st)
              in (True,
                  fold (\<lambda>x p. p(x := wrap32 (p x + wrap32 (d_dist st x - t_dist))))
                    (proc_nodes st) pot,
                  d_pred st, d_dist st))"

section \<open>Suurballe\<close>

record suurballe =
  flow :: "arc \<Rightarrow> int"
  potential :: "node \<Rightarrow> int"
  source_node :: node
  target_node :: node
  paths :: "arc list list"
  path_num :: int
  pred :: "node \<Rightarrow> arc option"
  dist :: "node \<Rightarrow> int"

definition init :: "digraph \<Rightarrow> node \<Rightarrow> suurballe \<Rightarrow> suurballe" where
  "init g s sb =
     sb\<lparr>source_node := s,
        flow := fold (\<lambda>e f. f(e := 0)) (arcs g) (flow sb),
        potential := fold (\<lambda>n p. p(n := 0)) (nodes g) (potential sb)\<rparr>"

text \<open>
  The walk \<^verbatim>\<open>while ((e = _pred[u]) != INVALID)\<close> of \<^verbatim>\<open>findFlow\<close>. Nothing in the loop
  bounds it, so a walk that never ends is the value \<open>None\<close>.
\<close>
partial_function (option) augment ::
  "digraph \<Rightarrow> (node \<Rightarrow> arc option) \<Rightarrow> node \<Rightarrow> (arc \<Rightarrow> int) \<Rightarrow> (arc \<Rightarrow> int) option" where
  "augment g prd u f =
     (case prd u of
        None \<Rightarrow> Some f
      | Some e \<Rightarrow>
          if u = target g e then augment g prd (source g e) (f(e := 1))
          else augment g prd (target g e) (f(e := 0)))"

declare augment.simps [code]

text \<open>
  One pass of the body of \<^verbatim>\<open>while (_path_num < k)\<close>: the flag is the result of the
  search (\<open>False\<close> is the \<^verbatim>\<open>break\<close>).
\<close>
definition findFlow_step ::
  "digraph \<Rightarrow> (arc \<Rightarrow> int) \<Rightarrow> suurballe \<Rightarrow> (bool \<times> suurballe) option" where
  "findFlow_step g l sb =
     (case dijkstra_run g (flow sb) l (potential sb) (pred sb) (dist sb)
             (source_node sb) (target_node sb) of
        (found, pot', prd', dst') \<Rightarrow>
          if \<not> found then Some (False, sb\<lparr>pred := prd', dist := dst'\<rparr>)
          else (case augment g prd' (target_node sb) (flow sb) of
                  None \<Rightarrow> None
                | Some f' \<Rightarrow>
                    Some (True, sb\<lparr>potential := pot', pred := prd', dist := dst',
                                   path_num := path_num sb + 1, flow := f'\<rparr>)))"

lemma findFlow_step_path_num:
  "findFlow_step g l sb = Some (True, sb') \<Longrightarrow> path_num sb' = path_num sb + 1"
  by (auto simp: findFlow_step_def split: prod.splits if_splits option.splits)

function findFlow_loop ::
  "digraph \<Rightarrow> (arc \<Rightarrow> int) \<Rightarrow> int \<Rightarrow> suurballe \<Rightarrow> suurballe option" where
  "findFlow_loop g l k sb =
     (if path_num sb < k
      then (case findFlow_step g l sb of
              None \<Rightarrow> None
            | Some (found, sb') \<Rightarrow> if found then findFlow_loop g l k sb' else Some sb')
      else Some sb)"
  by pat_completeness auto
termination
  by (relation "measure (\<lambda>(g, l, k, sb). nat (k - path_num sb))")
     (auto dest: findFlow_step_path_num)

declare findFlow_loop.simps [simp del]

text \<open>
  The start of \<^verbatim>\<open>findFlow\<close>: the target, a fresh \<^verbatim>\<open>ResidualDijkstra\<close> (its
  distance map starts at the default value 0 and is written before it is read), and
  \<^verbatim>\<open>_path_num = 0\<close>.
\<close>
definition findFlow_entry :: "node \<Rightarrow> suurballe \<Rightarrow> suurballe" where
  "findFlow_entry t sb = sb\<lparr>target_node := t, dist := (\<lambda>n. 0), path_num := 0\<rparr>"

definition findFlow :: "digraph \<Rightarrow> (arc \<Rightarrow> int) \<Rightarrow> node \<Rightarrow> int \<Rightarrow> suurballe \<Rightarrow> suurballe option" where
  "findFlow g l t k sb = findFlow_loop g l k (findFlow_entry t sb)"

text \<open>
  The state after \<open>n\<close> completed passes of the augmentation loop (each with a
  successful search), \<open>None\<close> when there are fewer.
\<close>
fun findFlow_iter :: "digraph \<Rightarrow> (arc \<Rightarrow> int) \<Rightarrow> nat \<Rightarrow> suurballe \<Rightarrow> suurballe option" where
  "findFlow_iter g l 0 sb = Some sb"
| "findFlow_iter g l (Suc n) sb =
     (case findFlow_step g l sb of
        None \<Rightarrow> None
      | Some (found, sb') \<Rightarrow> if found then findFlow_iter g l n sb' else None)"

text \<open>
  \<^verbatim>\<open>for ( ; res_flow[e] == 0; ++e) ;\<close> over the outgoing arcs: \<open>None\<close> when the iterator
  runs past the last arc, where the source reads the map at \<^verbatim>\<open>INVALID\<close>.
\<close>
fun first_flow_arc :: "(arc \<Rightarrow> int) \<Rightarrow> arc list \<Rightarrow> arc option" where
  "first_flow_arc res [] = None"
| "first_flow_arc res (e # es) = (if res e = 0 then first_flow_arc res es else Some e)"

definition support_size :: "digraph \<Rightarrow> (arc \<Rightarrow> int) \<Rightarrow> nat" where
  "support_size g res = length (filter (\<lambda>e. res e \<noteq> 0) (arcs g))"

lemma first_flow_arc_Some:
  "first_flow_arc res es = Some e \<Longrightarrow> e \<in> set es \<and> res e \<noteq> 0"
  by (induction es) (auto split: if_splits)

lemma support_size_less:
  assumes "first_flow_arc res (outArcs g n) = Some e"
  shows "support_size g (res(e := 0)) < support_size g res"
proof -
  have e: "e \<in> set (arcs g)" "res e \<noteq> 0"
    using first_flow_arc_Some [OF assms] by (auto simp: outArcs_def)
  have "length (filter (\<lambda>x. (res(e := 0)) x \<noteq> 0) (arcs g))
        < length (filter (\<lambda>x. res x \<noteq> 0) (arcs g))"
    by (rule length_filter_strict [OF e(1)]) (use e(2) in \<open>auto split: if_splits\<close>)
  then show ?thesis by (simp add: support_size_def)
qed

text \<open>The walk \<^verbatim>\<open>while (n != _target)\<close> of \<^verbatim>\<open>findPaths\<close>, building one path.\<close>
function find_path ::
  "digraph \<Rightarrow> node \<Rightarrow> (arc \<Rightarrow> int) \<Rightarrow> node \<Rightarrow> arc list \<Rightarrow> (arc list \<times> (arc \<Rightarrow> int)) option" where
  "find_path g t res n p =
     (if n \<noteq> t
      then (case first_flow_arc res (outArcs g n) of
              None \<Rightarrow> None
            | Some e \<Rightarrow> find_path g t (res(e := 0)) (target g e) (p @ [e]))
      else Some (p, res))"
  by pat_completeness auto
termination
  by (relation "measure (\<lambda>(g, t, res, n, p). support_size g res)")
     (auto intro: support_size_less)

declare find_path.simps [simp del]

text \<open>The loop \<^verbatim>\<open>for (int i = 0; i < _path_num; ++i)\<close>, with \<open>c\<close> passes left.\<close>
fun find_paths_loop ::
  "digraph \<Rightarrow> node \<Rightarrow> node \<Rightarrow> nat \<Rightarrow> (arc \<Rightarrow> int) \<Rightarrow> arc list list \<Rightarrow> arc list list option" where
  "find_paths_loop g s t 0 res ps = Some ps"
| "find_paths_loop g s t (Suc c) res ps =
     (case find_path g t res s [] of
        None \<Rightarrow> None
      | Some (p, res') \<Rightarrow> find_paths_loop g s t c res' (ps @ [p]))"

definition findPaths :: "digraph \<Rightarrow> suurballe \<Rightarrow> suurballe option" where
  "findPaths g sb =
     (let res_flow = fold (\<lambda>a r. r(a := flow sb a)) (arcs g) (\<lambda>a. 0)
      in case find_paths_loop g (source_node sb) (target_node sb) (nat (path_num sb)) res_flow []
         of None \<Rightarrow> None
          | Some ps \<Rightarrow> Some (sb\<lparr>paths := ps\<rparr>))"

definition run ::
  "digraph \<Rightarrow> (arc \<Rightarrow> int) \<Rightarrow> node \<Rightarrow> node \<Rightarrow> int \<Rightarrow> suurballe \<Rightarrow> (int \<times> suurballe) option" where
  "run g l s t k sb =
     (case findFlow g l t k (init g s sb) of
        None \<Rightarrow> None
      | Some sb1 \<Rightarrow>
          (case findPaths g sb1 of
             None \<Rightarrow> None
           | Some sb2 \<Rightarrow> Some (path_num sb2, sb2)))"


section \<open>Specification-level notions\<close>

text \<open>
  The spec's words for \<^verbatim>\<open>run\<close> (section 4.2): \<^verbatim>\<open>init(s); findFlow(t, k); findPaths();
  return path_num;\<close>, each step run on the state the previous one leaves.
\<close>
definition run_spec ::
  "digraph \<Rightarrow> (arc \<Rightarrow> int) \<Rightarrow> node \<Rightarrow> node \<Rightarrow> int \<Rightarrow> suurballe \<Rightarrow> (int \<times> suurballe) option" where
  "run_spec g l s t k sb =
     Option.bind (findFlow g l t k (init g s sb))
       (\<lambda>sb1. Option.bind (findPaths g sb1) (\<lambda>sb2. Some (path_num sb2, sb2)))"

subsection \<open>The residual graph\<close>

text \<open>
  Section 4.1 of the spec: an arc with flow 0 is a forward residual arc from its source to its
  target, an arc with flow 1 a reverse residual arc from its target to its source.
  \<open>res_arc g f e u v\<close> says that \<open>e\<close> is a residual arc from \<open>u\<close> to \<open>v\<close>, and
  \<open>rcost\<close> is its residual length under the potentials.
\<close>
definition res_arc :: "digraph \<Rightarrow> (arc \<Rightarrow> int) \<Rightarrow> arc \<Rightarrow> node \<Rightarrow> node \<Rightarrow> bool" where
  "res_arc g f e u v \<longleftrightarrow>
     e \<in> set (arcs g) \<and>
     (f e = 0 \<and> source g e = u \<and> target g e = v \<or>
      f e = 1 \<and> target g e = u \<and> source g e = v)"


definition res_step :: "digraph \<Rightarrow> (arc \<Rightarrow> int) \<Rightarrow> node \<Rightarrow> node \<Rightarrow> bool" where
  "res_step g f u v \<longleftrightarrow> (\<exists>e \<in> set (arcs g). res_arc g f e u v)"

definition residual_reachable :: "digraph \<Rightarrow> (arc \<Rightarrow> int) \<Rightarrow> node \<Rightarrow> node \<Rightarrow> bool" where
  "residual_reachable g f s t \<longleftrightarrow> (res_step g f)\<^sup>*\<^sup>* s t"


subsection \<open>Flows and paths\<close>

text \<open>The flow into and out of a node, summed over the arcs of the digraph.\<close>
definition inflow :: "digraph \<Rightarrow> (arc \<Rightarrow> int) \<Rightarrow> node \<Rightarrow> int" where
  "inflow g f n = sum_list (map f (inArcs g n))"

definition outflow :: "digraph \<Rightarrow> (arc \<Rightarrow> int) \<Rightarrow> node \<Rightarrow> int" where
  "outflow g f n = sum_list (map f (outArcs g n))"


text \<open>
  A path from \<open>u\<close> to \<open>v\<close> is a list of consecutive arcs of the digraph; a list of paths
  from \<open>s\<close> to \<open>t\<close> is arc-disjoint when no arc occurs twice in it, within a path or in
  two of them. A simple path visits no node twice.
\<close>
fun is_walk :: "digraph \<Rightarrow> node \<Rightarrow> arc list \<Rightarrow> node \<Rightarrow> bool" where
  "is_walk g u [] v \<longleftrightarrow> u = v"
| "is_walk g u (e # p) v \<longleftrightarrow> e \<in> set (arcs g) \<and> source g e = u \<and> is_walk g (target g e) p v"



definition simple_path :: "digraph \<Rightarrow> node \<Rightarrow> arc list \<Rightarrow> node \<Rightarrow> bool" where
  "simple_path g u p v \<longleftrightarrow> is_walk g u p v \<and> distinct (u # map (target g) p)"


text \<open>The flow after the arcs of \<open>p\<close> have changed between 0 and 1.\<close>
definition flipped :: "(arc \<Rightarrow> int) \<Rightarrow> arc list \<Rightarrow> arc \<Rightarrow> int" where
  "flipped f p = (\<lambda>a. if a \<in> set p then 1 - f a else f a)"

subsection \<open>Invariants of the search and of the augmentation loop\<close>

text \<open>The start of \<^verbatim>\<open>ResidualDijkstra::run\<close>: the source pushed with priority 0.\<close>
definition dijkstra_start :: "(node \<Rightarrow> arc option) \<Rightarrow> (node \<Rightarrow> int) \<Rightarrow> node \<Rightarrow> dstate" where
  "dijkstra_start prd dst s =
     \<lparr>heap = heap_push s 0 (\<lambda>n. PRE_HEAP), d_pred = prd(s := None), d_dist = dst, proc_nodes = []\<rparr>"

text \<open>
  The candidate labels that processing the node \<open>u\<close> offers, in the order of the two arc
  traversals; \<open>d\<close> is \<^verbatim>\<open>heap.prio() + _potential[u]\<close>.
\<close>
definition labels ::
  "digraph \<Rightarrow> (arc \<Rightarrow> int) \<Rightarrow> (arc \<Rightarrow> int) \<Rightarrow> (node \<Rightarrow> int) \<Rightarrow> node \<Rightarrow> int \<Rightarrow> (node \<times> int \<times> arc) list" where
  "labels g f l pot u d =
     map (\<lambda>e. (target g e, wrap32 (wrap32 (d + l e) - pot (target g e)), e))
       (filter (\<lambda>e. f e = 0) (outArcs g u)) @
     map (\<lambda>e. (source g e, wrap32 (wrap32 (d - l e) - pot (source g e)), e))
       (filter (\<lambda>e. f e = 1) (inArcs g u))"

definition apply_label :: "node \<times> int \<times> arc \<Rightarrow> dstate \<Rightarrow> dstate" where
  "apply_label x st = (case x of (v, nd, e) \<Rightarrow> heap_label v nd e st)"

text \<open>
  \<open>chain g f prd hp s v p\<close>: following the predecessor arcs from \<open>v\<close> leads to the source
  \<open>s\<close> over the arcs \<open>p\<close>, each a residual arc leaving a processed node.
\<close>
inductive chain ::
  "digraph \<Rightarrow> (arc \<Rightarrow> int) \<Rightarrow> (node \<Rightarrow> arc option) \<Rightarrow> heap \<Rightarrow> node \<Rightarrow> node \<Rightarrow> arc list \<Rightarrow> bool"
  for g f prd hp s where
  chain_source: "chain g f prd hp s s []"
| chain_arc: "chain g f prd hp s u p \<Longrightarrow> hp u = POST_HEAP \<Longrightarrow> prd v = Some e \<Longrightarrow>
     res_arc g f e u v \<Longrightarrow> u \<noteq> v \<Longrightarrow> v \<noteq> s \<Longrightarrow> chain g f prd hp s v (e # p)"


text \<open>
  The shape of the search tree: the source is processed first and keeps no predecessor, the
  touched nodes are nodes of the digraph and have a chain to the source, the residual arcs
  leaving a processed node lead to touched nodes, and the processed list holds the processed
  nodes once each and never the target.
\<close>
definition tree_inv ::
  "digraph \<Rightarrow> (arc \<Rightarrow> int) \<Rightarrow> node \<Rightarrow> node \<Rightarrow> dstate \<Rightarrow> bool" where
  "tree_inv g f s t st \<longleftrightarrow>
     (heap st s = POST_HEAP \<or> heap st s = IN_HEAP 0 \<and> (\<forall>v. v \<noteq> s \<longrightarrow> heap st v = PRE_HEAP)) \<and>
     d_pred st s = None \<and>
     (\<forall>v. heap st v \<noteq> PRE_HEAP \<longrightarrow> v \<in> set (nodes g)) \<and>
     (\<forall>v. heap st v \<noteq> PRE_HEAP \<longrightarrow> (\<exists>p. chain g f (d_pred st) (heap st) s v p)) \<and>
     (\<forall>u v e. heap st u = POST_HEAP \<longrightarrow> res_arc g f e u v \<longrightarrow> heap st v \<noteq> PRE_HEAP) \<and>
     set (proc_nodes st) = {v. heap st v = POST_HEAP} \<and> distinct (proc_nodes st) \<and>
     heap st t \<noteq> POST_HEAP"










text \<open>
  The flow after some passes of the augmentation loop is 0 or 1 on every arc, and the excess of
  every node is \<^verbatim>\<open>path_num\<close> at the target and its negative at the source (0 when they are
  the same node).
\<close>
definition flow_inv :: "digraph \<Rightarrow> suurballe \<Rightarrow> bool" where
  "flow_inv g sb \<longleftrightarrow>
     (\<forall>a \<in> set (arcs g). flow sb a = 0 \<or> flow sb a = 1) \<and>
     (\<forall>n. inflow g (flow sb) n - outflow g (flow sb) n =
          path_num sb * ((if n = target_node sb then 1 else 0) - (if n = source_node sb then 1 else 0)))"

section \<open>Concrete inputs\<close>

text \<open>A single arc from node 0 to node 1, every length 1, and a blank instance.\<close>
definition two_nodes :: digraph where
  "two_nodes = \<lparr>nodes = [0, 1], arcs = [0], source = (\<lambda>e. 0), target = (\<lambda>e. 1)\<rparr>"

definition unit_length :: "arc \<Rightarrow> int" where
  "unit_length = (\<lambda>e. 1)"

definition blank :: suurballe where
  "blank = \<lparr>flow = (\<lambda>e. 0), potential = (\<lambda>n. 0), source_node = 0, target_node = 0,
            paths = [], path_num = 0, pred = (\<lambda>n. None), dist = (\<lambda>n. 0)\<rparr>"

text \<open>
  Nodes s = 0, a = 1, b = 2, t = 3 and the arcs 0: s\<rightarrow>a (1), 1: a\<rightarrow>b (0), 2: b\<rightarrow>t (1),
  3: s\<rightarrow>b (10), 4: a\<rightarrow>t (10), 5: b\<rightarrow>a (0); the arcs a\<rightarrow>b and b\<rightarrow>a form a cycle
  of length zero. The arc iteration order is 0, 4, 1, 2, 5, 3.
\<close>
definition zero_cycle :: digraph where
  "zero_cycle = \<lparr>nodes = [0, 1, 2, 3], arcs = [0, 4, 1, 2, 5, 3],
                  source = (\<lambda>e. [0, 1, 2, 0, 1, 2] ! e),
                  target = (\<lambda>e. [1, 2, 3, 2, 3, 1] ! e)\<rparr>"

text \<open>The same digraph with the arc iteration order 0, 1, 4, 5, 2, 3.\<close>
definition zero_cycle_alt :: digraph where
  "zero_cycle_alt = zero_cycle\<lparr>arcs := [0, 1, 4, 5, 2, 3]\<rparr>"

definition zero_cycle_length :: "arc \<Rightarrow> int" where
  "zero_cycle_length = (\<lambda>e. [1, 0, 1, 10, 10, 0] ! e)"



section \<open>Basic facts about the search\<close>

lemma dijkstra_loop_induct_inv:
  assumes "I st"
    and "\<And>st. I st \<Longrightarrow> \<not> heap_empty g (heap st) \<Longrightarrow> heap_top g (heap st) \<noteq> t \<Longrightarrow>
           I (process_node g f l pot st)"
  shows "I (dijkstra_loop g f l pot t st) \<and>
         (heap_empty g (heap (dijkstra_loop g f l pot t st)) \<or>
          heap_top g (heap (dijkstra_loop g f l pot t st)) = t)"
  using assms
proof (induction g f l pot t st rule: dijkstra_loop.induct)
  case (1 g f l pot t st)
  show ?case
  proof (cases "\<not> heap_empty g (heap st) \<and> heap_top g (heap st) \<noteq> t")
    case True
    have eq: "dijkstra_loop g f l pot t st = dijkstra_loop g f l pot t (process_node g f l pot st)"
      using True by (subst dijkstra_loop.simps) simp
    have "I (process_node g f l pot st)"
      using "1.prems" True by blast
    then show ?thesis
      using "1.IH" [OF True] "1.prems"(2) unfolding eq by blast
  next
    case False
    have eq: "dijkstra_loop g f l pot t st = st"
      using False by (subst dijkstra_loop.simps) auto
    show ?thesis using "1.prems"(1) False unfolding eq by blast
  qed
qed

lemma heap_label_frame [simp]:
  "proc_nodes (heap_label v nd e st) = proc_nodes st"
  "d_dist (heap_label v nd e st) = d_dist st"
  by (simp_all add: heap_label_def split: hstate.splits)

lemma scan_frame [simp]:
  "proc_nodes (scan_out g f l pot d e st) = proc_nodes st"
  "d_dist (scan_out g f l pot d e st) = d_dist st"
  "proc_nodes (scan_in g f l pot d e st) = proc_nodes st"
  "d_dist (scan_in g f l pot d e st) = d_dist st"
  by (simp_all add: scan_out_def scan_in_def)

lemma fold_scan_frame [simp]:
  "proc_nodes (fold (scan_out g f l pot d) es st) = proc_nodes st"
  "d_dist (fold (scan_out g f l pot d) es st) = d_dist st"
  "proc_nodes (fold (scan_in g f l pot d) es st) = proc_nodes st"
  "d_dist (fold (scan_in g f l pot d) es st) = d_dist st"
  by (induction es arbitrary: st) simp_all

lemma process_node_proc:
  "proc_nodes (process_node g f l pot st) = proc_nodes st @ [heap_top g (heap st)]"
  by (simp add: process_node_def Let_def)


lemma dijkstra_run_alt:
  "dijkstra_run g f l pot prd dst s t =
     (let st = dijkstra_loop g f l pot t (dijkstra_start prd dst s)
      in if heap_empty g (heap st) then (False, pot, d_pred st, d_dist st)
         else (True,
               fold (\<lambda>x p. p(x := wrap32 (p x + wrap32 (d_dist st x - heap_prio g (heap st)))))
                 (proc_nodes st) pot,
               d_pred st, d_dist st))"
  by (simp add: dijkstra_run_def dijkstra_start_def Let_def)

lemma target_not_processed:
  "t \<notin> set (proc_nodes (dijkstra_loop g f l pot t (dijkstra_start prd dst s)))"
proof -
  have "t \<notin> set (proc_nodes (dijkstra_start prd dst s))"
    by (simp add: dijkstra_start_def)
  then show ?thesis
    using dijkstra_loop_induct_inv [where I = "\<lambda>st. t \<notin> set (proc_nodes st)"]
    by (simp add: process_node_proc)
qed

lemma fold_update_other:
  "x \<notin> set xs \<Longrightarrow> fold (\<lambda>x p. p(x := h p x)) xs pot x = pot x"
  by (induction xs arbitrary: pot) auto

lemma dijkstra_run_target_potential:
  "dijkstra_run g f l pot prd dst s t = (b, pot', prd', dst') \<Longrightarrow> pot' t = pot t"
  using target_not_processed [of t g f l pot prd dst s]
  by (auto simp: dijkstra_run_alt Let_def fold_update_other split: if_splits)

lemma findFlow_step_target:
  "findFlow_step g l sb = Some (b, sb') \<Longrightarrow>
   target_node sb' = target_node sb \<and> source_node sb' = source_node sb \<and>
   potential sb' (target_node sb) = potential sb (target_node sb)"
  by (auto simp: findFlow_step_def split: prod.splits if_splits option.splits
           dest: dijkstra_run_target_potential)

lemma findFlow_iter_target:
  "findFlow_iter g l n sb = Some sb' \<Longrightarrow>
   target_node sb' = target_node sb \<and> source_node sb' = source_node sb \<and>
   potential sb' (target_node sb) = potential sb (target_node sb)"
proof (induction n arbitrary: sb)
  case 0
  then show ?case by simp
next
  case (Suc n)
  from Suc.prems obtain sb1 where st: "findFlow_step g l sb = Some (True, sb1)"
    and it: "findFlow_iter g l n sb1 = Some sb'"
    by (auto split: option.splits if_splits)
  show ?case
    using findFlow_step_target [OF st] Suc.IH [OF it] by simp
qed

lemma findFlow_loop_target:
  "findFlow_loop g l k sb = Some sb' \<Longrightarrow>
   target_node sb' = target_node sb \<and> source_node sb' = source_node sb \<and>
   potential sb' (target_node sb) = potential sb (target_node sb)"
proof (induction g l k sb rule: findFlow_loop.induct)
  case (1 g l k sb)
  show ?case
  proof (cases "path_num sb < k")
    case False
    then show ?thesis using "1.prems" by (subst (asm) findFlow_loop.simps) simp
  next
    case True
    then obtain b sb1 where st: "findFlow_step g l sb = Some (b, sb1)"
      and r: "if b then findFlow_loop g l k sb1 = Some sb' else sb' = sb1"
      using "1.prems" by (subst (asm) findFlow_loop.simps) (auto split: option.splits if_splits)
    note t = findFlow_step_target [OF st]
    show ?thesis
    proof (cases b)
      case True
      then have "findFlow_loop g l k sb1 = Some sb'" using r by simp
      from "1.IH" [OF \<open>path_num sb < k\<close> st refl True this] t show ?thesis by simp
    next
      case False
      then show ?thesis using r t by simp
    qed
  qed
qed

lemma fold_zero:
  "fold (\<lambda>n p. p(n := (0::int))) xs pot x = (if x \<in> set xs then 0 else pot x)"
  by (induction xs arbitrary: pot) auto

lemma init_simps [simp]:
  "source_node (init g s sb) = s"
  "potential (init g s sb) n = (if n \<in> set (nodes g) then 0 else potential sb n)"
  "flow (init g s sb) e = (if e \<in> set (arcs g) then 0 else flow sb e)"
  by (simp_all add: init_def fold_zero)

lemma findFlow_entry_simps [simp]:
  "target_node (findFlow_entry t sb) = t"
  "source_node (findFlow_entry t sb) = source_node sb"
  "potential (findFlow_entry t sb) = potential sb"
  "flow (findFlow_entry t sb) = flow sb"
  "path_num (findFlow_entry t sb) = 0"
  by (simp_all add: findFlow_entry_def)

subsection \<open>Source and target the same node\<close>

lemma heap_items_start:
  "heap_items g (heap (dijkstra_start prd dst s)) = filter (\<lambda>n. n = s) (nodes g)"
  by (auto simp: heap_items_def dijkstra_start_def heap_push_def intro: filter_cong)

lemma dijkstra_start_top:
  assumes "s \<in> set (nodes g)"
  shows "\<not> heap_empty g (heap (dijkstra_start prd dst s))"
    and "heap_top g (heap (dijkstra_start prd dst s)) = s"
proof -
  show ne: "\<not> heap_empty g (heap (dijkstra_start prd dst s))"
    using assms by (auto simp: heap_empty_def heap_items_start filter_empty_conv)
  show "heap_top g (heap (dijkstra_start prd dst s)) = s"
    using heap_top_in_items [OF ne] by (simp add: heap_items_start)
qed

lemma dijkstra_run_same:
  assumes "s \<in> set (nodes g)"
  shows "dijkstra_run g f l pot prd dst s s = (True, pot, prd(s := None), dst)"
proof -
  have "dijkstra_loop g f l pot s (dijkstra_start prd dst s) = dijkstra_start prd dst s"
    using dijkstra_start_top [OF assms] by (subst dijkstra_loop.simps) simp
  then show ?thesis
    using dijkstra_start_top(1) [OF assms, of prd dst]
    by (simp add: dijkstra_run_alt) (simp add: dijkstra_start_def)
qed

lemma findFlow_step_same:
  assumes "source_node sb \<in> set (nodes g)" "target_node sb = source_node sb"
  shows "findFlow_step g l sb =
    Some (True, sb\<lparr>potential := potential sb, pred := (pred sb)(source_node sb := None),
                   dist := dist sb, path_num := path_num sb + 1, flow := flow sb\<rparr>)"
  using assms by (simp add: findFlow_step_def dijkstra_run_same augment.simps)

lemma findFlow_loop_same:
  assumes "source_node sb \<in> set (nodes g)" "target_node sb = source_node sb" "path_num sb \<le> k"
  shows "\<exists>sb'. findFlow_loop g l k sb = Some sb' \<and> path_num sb' = k \<and>
           source_node sb' = source_node sb \<and> target_node sb' = source_node sb"
  using assms
proof (induction g l k sb rule: findFlow_loop.induct)
  case (1 g l k sb)
  show ?case
  proof (cases "path_num sb < k")
    case True
    let ?sb = "sb\<lparr>potential := potential sb, pred := (pred sb)(source_node sb := None),
                   dist := dist sb, path_num := path_num sb + 1, flow := flow sb\<rparr>"
    have st: "findFlow_step g l sb = Some (True, ?sb)"
      using findFlow_step_same "1.prems" by simp
    have "\<exists>sb'. findFlow_loop g l k ?sb = Some sb' \<and> path_num sb' = k \<and>
           source_node sb' = source_node ?sb \<and> target_node sb' = source_node ?sb"
      using "1.prems" True by (intro "1.IH" [OF True st]) simp_all
    then show ?thesis
      using True st by (subst findFlow_loop.simps) simp
  next
    case False
    then show ?thesis using "1.prems" by (subst findFlow_loop.simps) simp
  qed
qed

lemma find_paths_loop_same:
  "\<exists>ps'. find_paths_loop g s s c res ps = Some ps'"
  by (induction c arbitrary: res ps) (simp_all add: find_path.simps)

section \<open>Processing a node\<close>

lemma apply_label_simp [simp]: "apply_label (v, nd, e) st = heap_label v nd e st"
  by (simp add: apply_label_def)

lemma fold_scan_out_labels:
  "fold (scan_out g f l pot d) es st =
   fold apply_label
     (map (\<lambda>e. (target g e, wrap32 (wrap32 (d + l e) - pot (target g e)), e))
        (filter (\<lambda>e. f e = 0) es)) st"
  by (induction es arbitrary: st) (simp_all add: scan_out_def)

lemma fold_scan_in_labels:
  "fold (scan_in g f l pot d) es st =
   fold apply_label
     (map (\<lambda>e. (source g e, wrap32 (wrap32 (d - l e) - pot (source g e)), e))
        (filter (\<lambda>e. f e = 1) es)) st"
  by (induction es arbitrary: st) (simp_all add: scan_in_def)

lemma process_node_labels:
  "process_node g f l pot st =
   fold apply_label
     (labels g f l pot (heap_top g (heap st))
        (wrap32 (heap_prio g (heap st) + pot (heap_top g (heap st)))))
     (st\<lparr>d_dist := (d_dist st)(heap_top g (heap st) := heap_prio g (heap st)),
         heap := heap_pop g (heap st),
         proc_nodes := proc_nodes st @ [heap_top g (heap st)]\<rparr>)"
  by (simp add: process_node_def Let_def labels_def fold_scan_out_labels fold_scan_in_labels)


lemma labels_arc:
  "(v, nd, e) \<in> set (labels g f l pot u d) \<Longrightarrow> res_arc g f e u v"
  by (auto simp: labels_def res_arc_def outArcs_def inArcs_def)

lemma arc_labels:
  "res_arc g f e u v \<Longrightarrow> \<exists>nd. (v, nd, e) \<in> set (labels g f l pot u d)"
  by (auto simp: labels_def res_arc_def outArcs_def inArcs_def)


lemma heap_label_heap:
  "heap (heap_label v nd e st) w =
     (if w = v then (case heap st v of PRE_HEAP \<Rightarrow> IN_HEAP nd
                      | IN_HEAP p \<Rightarrow> if nd < p then IN_HEAP nd else IN_HEAP p
                      | POST_HEAP \<Rightarrow> POST_HEAP)
      else heap st w)"
  by (simp add: heap_label_def heap_push_def heap_decrease_def split: hstate.splits)

lemma heap_label_pred:
  "d_pred (heap_label v nd e st) w =
     (if w = v \<and> (heap st v = PRE_HEAP \<or> (\<exists>p. heap st v = IN_HEAP p \<and> nd < p)) then Some e
      else d_pred st w)"
  by (auto simp: heap_label_def split: hstate.splits)

lemma fold_label_frame [simp]:
  "proc_nodes (fold apply_label L st) = proc_nodes st"
  "d_dist (fold apply_label L st) = d_dist st"
  "heap (fold apply_label L st) n = POST_HEAP \<longleftrightarrow> heap st n = POST_HEAP"
  by (induction L arbitrary: st) auto

lemma fold_label_changed:
  "heap (fold apply_label L st) v = heap st v \<and> d_pred (fold apply_label L st) v = d_pred st v \<or>
   heap st v \<noteq> POST_HEAP \<and>
   (\<exists>nd e. (v, nd, e) \<in> set L \<and> heap (fold apply_label L st) v = IN_HEAP nd \<and>
            d_pred (fold apply_label L st) v = Some e)"
proof (induction L arbitrary: st)
  case Nil
  then show ?case by simp
next
  case (Cons x L)
  obtain w nd e where x: "x = (w, nd, e)" by (cases x)
  let ?st1 = "heap_label w nd e st"
  have post: "heap ?st1 v = POST_HEAP \<longleftrightarrow> heap st v = POST_HEAP" by simp
  have one: "heap ?st1 v = heap st v \<and> d_pred ?st1 v = d_pred st v \<or>
    heap st v \<noteq> POST_HEAP \<and> w = v \<and> heap ?st1 v = IN_HEAP nd \<and> d_pred ?st1 v = Some e"
    by (auto simp: heap_label_heap heap_label_pred split: hstate.splits)
  have fold_eq: "fold apply_label (x # L) st = fold apply_label L ?st1"
    by (simp add: x)
  from Cons.IH [of ?st1] show ?case
  proof (elim disjE conjE exE)
    assume same: "heap (fold apply_label L ?st1) v = heap ?st1 v"
      "d_pred (fold apply_label L ?st1) v = d_pred ?st1 v"
    from one show ?thesis
    proof (elim disjE conjE)
      assume "heap ?st1 v = heap st v" "d_pred ?st1 v = d_pred st v"
      then show ?thesis using same unfolding fold_eq by simp
    next
      assume "heap st v \<noteq> POST_HEAP" "w = v" "heap ?st1 v = IN_HEAP nd" "d_pred ?st1 v = Some e"
      then show ?thesis using same unfolding fold_eq x by simp
    qed
  next
    fix nd' e'
    assume "heap ?st1 v \<noteq> POST_HEAP" "(v, nd', e') \<in> set L"
      "heap (fold apply_label L ?st1) v = IN_HEAP nd'"
      "d_pred (fold apply_label L ?st1) v = Some e'"
    then show ?thesis using post unfolding fold_eq by auto
  qed
qed

lemma fold_label_in:
  "heap st v = IN_HEAP p \<Longrightarrow> \<exists>p'. heap (fold apply_label L st) v = IN_HEAP p' \<and> p' \<le> p"
proof (induction L arbitrary: st p)
  case Nil
  then show ?case by simp
next
  case (Cons x L)
  obtain w nd e where x: "x = (w, nd, e)" by (cases x)
  have "\<exists>p1. heap (heap_label w nd e st) v = IN_HEAP p1 \<and> p1 \<le> p"
    using Cons.prems by (auto simp: heap_label_heap)
  then obtain p1 where p1: "heap (heap_label w nd e st) v = IN_HEAP p1" "p1 \<le> p"
    by blast
  from Cons.IH [OF p1(1)] p1(2) show ?case
    unfolding x by fastforce
qed

lemma fold_label_bound:
  "(v, nd, e) \<in> set L \<Longrightarrow> heap st v \<noteq> POST_HEAP \<Longrightarrow>
   \<exists>p'. heap (fold apply_label L st) v = IN_HEAP p' \<and> p' \<le> nd"
proof (induction L arbitrary: st)
  case Nil
  then show ?case by simp
next
  case (Cons x L)
  show ?case
  proof (cases "x = (v, nd, e)")
    case True
    have "\<exists>p1. heap (heap_label v nd e st) v = IN_HEAP p1 \<and> p1 \<le> nd"
      using Cons.prems(2) by (cases "heap st v") (simp_all add: heap_label_heap)
    then obtain p1 where p1: "heap (heap_label v nd e st) v = IN_HEAP p1" "p1 \<le> nd"
      by blast
    from fold_label_in [OF p1(1), of L] p1(2) show ?thesis
      unfolding True by fastforce
  next
    case False
    obtain w nd' e' where x: "x = (w, nd', e')" by (cases x)
    have "heap (heap_label w nd' e' st) v \<noteq> POST_HEAP"
      using Cons.prems(2) by simp
    moreover have "(v, nd, e) \<in> set L"
      using Cons.prems(1) False by simp
    ultimately show ?thesis
      using Cons.IH [of "heap_label w nd' e' st"] unfolding x by simp
  qed
qed

lemma heap_top_state:
  assumes "\<not> heap_empty g h"
  shows "h (heap_top g h) = IN_HEAP (heap_prio g h)"
  using heap_top_in_heap [OF assms] by (cases "h (heap_top g h)") (simp_all add: heap_prio_def)


lemma process_node_fold:
  assumes "u = heap_top g (heap st)" "q = heap_prio g (heap st)" "st' = process_node g f l pot st"
  shows "st' = fold apply_label (labels g f l pot u (wrap32 (q + pot u)))
           (st\<lparr>d_dist := (d_dist st)(u := q), heap := (heap st)(u := POST_HEAP),
               proc_nodes := proc_nodes st @ [u]\<rparr>)"
  unfolding assms by (simp add: process_node_labels heap_pop_def)

lemma process_node_changed:
  assumes "u = heap_top g (heap st)" "st' = process_node g f l pot st"
  shows "heap st' v = ((heap st)(u := POST_HEAP)) v \<and> d_pred st' v = d_pred st v \<or>
         heap st v \<noteq> POST_HEAP \<and> v \<noteq> u \<and>
         (\<exists>e nd. res_arc g f e u v \<and> heap st' v = IN_HEAP nd \<and> d_pred st' v = Some e)"
proof -
  let ?L = "labels g f l pot u (wrap32 (heap_prio g (heap st) + pot u))"
  let ?st1 = "st\<lparr>d_dist := (d_dist st)(u := heap_prio g (heap st)),
                 heap := (heap st)(u := POST_HEAP), proc_nodes := proc_nodes st @ [u]\<rparr>"
  have eq: "st' = fold apply_label ?L ?st1"
    by (rule process_node_fold [OF assms(1) refl assms(2)])
  from fold_label_changed [of ?L ?st1 v] show ?thesis
    unfolding eq [symmetric] using labels_arc [of v _ _ g f l pot u]
    by (auto split: if_splits)
qed

lemma process_node_touched:
  assumes "u = heap_top g (heap st)" "st' = process_node g f l pot st"
    and "res_arc g f e u v" "v \<noteq> u" "heap st v \<noteq> POST_HEAP"
  shows "\<exists>p'. heap st' v = IN_HEAP p'"
proof -
  let ?L = "labels g f l pot u (wrap32 (heap_prio g (heap st) + pot u))"
  let ?st1 = "st\<lparr>d_dist := (d_dist st)(u := heap_prio g (heap st)),
                 heap := (heap st)(u := POST_HEAP), proc_nodes := proc_nodes st @ [u]\<rparr>"
  have eq: "st' = fold apply_label ?L ?st1"
    by (rule process_node_fold [OF assms(1) refl assms(2)])
  obtain nd where m: "(v, nd, e) \<in> set ?L"
    using arc_labels [OF assms(3)] by blast
  have "heap ?st1 v \<noteq> POST_HEAP" using assms(4,5) by simp
  from fold_label_bound [OF m this] show ?thesis unfolding eq by blast
qed




section \<open>The search tree\<close>

lemma chain_mono:
  assumes "chain g f prd hp s v p"
    and "\<And>x. hp x = POST_HEAP \<Longrightarrow> hp' x = POST_HEAP \<and> prd' x = prd x"
    and "prd' v = prd v"
  shows "chain g f prd' hp' s v p"
  using assms(1,3)
proof (induction rule: chain.induct)
  case chain_source
  show ?case by (rule chain.chain_source)
next
  case (chain_arc u p v e)
  have "chain g f prd' hp' s u p"
    using chain_arc.IH assms(2) [OF chain_arc.hyps(2)] by simp
  then show ?case
    using chain_arc.hyps chain_arc.prems assms(2) [OF chain_arc.hyps(2)]
    by (intro chain.chain_arc) simp_all
qed

lemma tree_inv_start:
  assumes "s \<in> set (nodes g)"
  shows "tree_inv g f s t (dijkstra_start prd dst s)"
  unfolding tree_inv_def dijkstra_start_def
  using assms by (auto simp: heap_push_def intro: chain.chain_source)

lemma res_arc_nodes:
  "wf_digraph g \<Longrightarrow> res_arc g f e u v \<Longrightarrow> u \<in> set (nodes g) \<and> v \<in> set (nodes g)"
  by (auto simp: wf_digraph_def res_arc_def)

lemma tree_inv_step:
  assumes wf: "wf_digraph g"
    and inv: "tree_inv g f s t st"
    and ne: "\<not> heap_empty g (heap st)"
    and nt: "heap_top g (heap st) \<noteq> t"
  shows "tree_inv g f s t (process_node g f l pot st)"
proof -
  define u where "u = heap_top g (heap st)"
  define q where "q = heap_prio g (heap st)"
  define st' where "st' = process_node g f l pot st"
  have u_in: "heap st u = IN_HEAP q" and u_node: "u \<in> set (nodes g)"
    using heap_top_state [OF ne] heap_top_in_heap [OF ne] by (simp_all add: u_def q_def)
  have post: "\<And>x. heap st' x = POST_HEAP \<longleftrightarrow> x = u \<or> heap st x = POST_HEAP"
    by (simp add: u_def st'_def process_node_post)
  have proc': "proc_nodes st' = proc_nodes st @ [u]"
    by (simp add: u_def st'_def process_node_proc)
  note chg = process_node_changed [OF u_def st'_def, of _]
  note bnd = process_node_touched [OF u_def st'_def]
  from inv have
    i1: "heap st s = POST_HEAP \<or> heap st s = IN_HEAP 0 \<and> (\<forall>v. v \<noteq> s \<longrightarrow> heap st v = PRE_HEAP)"
    and i2: "d_pred st s = None"
    and i4: "\<And>v. heap st v \<noteq> PRE_HEAP \<Longrightarrow> v \<in> set (nodes g)"
    and i5: "\<And>v. heap st v \<noteq> PRE_HEAP \<Longrightarrow> \<exists>p. chain g f (d_pred st) (heap st) s v p"
    and i6: "\<And>u v e. heap st u = POST_HEAP \<Longrightarrow> res_arc g f e u v \<Longrightarrow> heap st v \<noteq> PRE_HEAP"
    and i7: "set (proc_nodes st) = {v. heap st v = POST_HEAP}" "distinct (proc_nodes st)"
    and i8: "heap st t \<noteq> POST_HEAP"
    unfolding tree_inv_def by blast+
  have s_post: "heap st' s = POST_HEAP"
  proof -
    from i1 show ?thesis
    proof
      assume "heap st s = POST_HEAP" then show ?thesis by (simp add: post)
    next
      assume a: "heap st s = IN_HEAP 0 \<and> (\<forall>v. v \<noteq> s \<longrightarrow> heap st v = PRE_HEAP)"
      then have "u = s" using u_in by (cases "u = s") auto
      then show ?thesis by (simp add: post)
    qed
  qed
  have unchanged_post: "\<And>x. heap st' x = POST_HEAP \<Longrightarrow> d_pred st' x = d_pred st x"
    using chg post by (metis hstate.distinct(5))
  have c1: "heap st' s = POST_HEAP \<or> heap st' s = IN_HEAP 0 \<and> (\<forall>v. v \<noteq> s \<longrightarrow> heap st' v = PRE_HEAP)"
    using s_post by simp
  have c2: "d_pred st' s = None"
    using unchanged_post [OF s_post] i2 by simp
  have nonpre: "\<And>v. heap st v \<noteq> PRE_HEAP \<Longrightarrow> heap st' v \<noteq> PRE_HEAP"
    using chg by (metis fun_upd_apply hstate.distinct(1) hstate.distinct(3))
  have c4: "\<And>v. heap st' v \<noteq> PRE_HEAP \<Longrightarrow> v \<in> set (nodes g)"
  proof -
    fix v assume a: "heap st' v \<noteq> PRE_HEAP"
    from chg [of v] show "v \<in> set (nodes g)"
    proof (elim disjE conjE exE)
      assume "heap st' v = ((heap st)(u := POST_HEAP)) v"
      then show ?thesis using a i4 [of v] u_node by (cases "v = u") auto
    next
      fix e assume "res_arc g f e u v"
      then show ?thesis using res_arc_nodes [OF wf] by blast
    qed
  qed
  have c6: "\<And>x v e. heap st' x = POST_HEAP \<Longrightarrow> res_arc g f e x v \<Longrightarrow> heap st' v \<noteq> PRE_HEAP"
  proof -
    fix x v e assume a: "heap st' x = POST_HEAP" "res_arc g f e x v"
    show "heap st' v \<noteq> PRE_HEAP"
    proof (cases "x = u")
      case True
      show ?thesis
      proof (cases "v \<noteq> u \<and> heap st v \<noteq> POST_HEAP")
        case True
        then show ?thesis using bnd [of e v] a \<open>x = u\<close> by auto
      next
        case False
        then have "heap st' v = POST_HEAP" using post by auto
        then show ?thesis by simp
      qed
    next
      case False
      then have "heap st x = POST_HEAP" using a post by simp
      then show ?thesis using i6 a(2) nonpre by blast
    qed
  qed
  have c7: "set (proc_nodes st') = {v. heap st' v = POST_HEAP}" "distinct (proc_nodes st')"
    using i7 u_in by (auto simp: proc' post)
  have c8: "heap st' t \<noteq> POST_HEAP"
    using i8 nt by (simp add: post u_def)
  have mono: "chain g f (d_pred st') (heap st') s v p"
    if "chain g f (d_pred st) (heap st) s v p" "d_pred st' v = d_pred st v" for v p
  proof (rule chain_mono [OF that(1)])
    show "heap st' x = POST_HEAP \<and> d_pred st' x = d_pred st x" if "heap st x = POST_HEAP" for x
      using that unchanged_post [of x] post [of x] by simp
    show "d_pred st' v = d_pred st v" by (rule that(2))
  qed
  have c5: "\<And>v. heap st' v \<noteq> PRE_HEAP \<Longrightarrow> \<exists>p. chain g f (d_pred st') (heap st') s v p"
  proof -
    fix v assume a: "heap st' v \<noteq> PRE_HEAP"
    from chg [of v] show "\<exists>p. chain g f (d_pred st') (heap st') s v p"
    proof (elim disjE conjE exE)
      assume b: "heap st' v = ((heap st)(u := POST_HEAP)) v" "d_pred st' v = d_pred st v"
      have "heap st v \<noteq> PRE_HEAP" using a b(1) u_in by (cases "v = u") auto
      then show ?thesis using i5 mono b(2) by blast
    next
      fix e nd assume b: "heap st v \<noteq> POST_HEAP" "v \<noteq> u" "res_arc g f e u v"
        "d_pred st' v = Some e"
      obtain p where p: "chain g f (d_pred st) (heap st) s u p"
        using i5 [of u] u_in by auto
      have "d_pred st' u = d_pred st u" using unchanged_post [of u] post by simp
      then have pu: "chain g f (d_pred st') (heap st') s u p" using mono p by blast
      have "heap st' v \<noteq> POST_HEAP" using b(1,2) post by simp
      then have "v \<noteq> s" using s_post by auto
      then have "chain g f (d_pred st') (heap st') s v (e # p)"
        using pu b post by (intro chain.chain_arc) auto
      then show ?thesis by blast
    qed
  qed
  show ?thesis
    unfolding tree_inv_def st'_def [symmetric]
    using c1 c2 c4 c5 c6 c7 c8 by blast
qed



lemma tree_inv_loop:
  assumes "wf_digraph g" "s \<in> set (nodes g)"
  shows "tree_inv g f s t (dijkstra_loop g f l pot t (dijkstra_start prd dst s)) \<and>
         (heap_empty g (heap (dijkstra_loop g f l pot t (dijkstra_start prd dst s))) \<or>
          heap_top g (heap (dijkstra_loop g f l pot t (dijkstra_start prd dst s))) = t)"
  by (rule dijkstra_loop_induct_inv [where I = "tree_inv g f s t"])
     (use assms in \<open>auto intro: tree_inv_start tree_inv_step\<close>)

subsection \<open>Reachability\<close>

lemma chain_reachable:
  "chain g f prd hp s v p \<Longrightarrow> residual_reachable g f s v"
  unfolding residual_reachable_def
proof (induction rule: chain.induct)
  case chain_source
  show ?case by simp
next
  case (chain_arc u p v e)
  have "res_step g f u v"
    using chain_arc.hyps(4) by (auto simp: res_step_def res_arc_def)
  then show ?case using chain_arc.IH by simp
qed

lemma heap_empty_no_in:
  "heap_empty g h \<Longrightarrow> v \<in> set (nodes g) \<Longrightarrow> h v \<noteq> IN_HEAP q"
  by (auto simp: heap_empty_def heap_items_def filter_empty_conv)

lemma closed_reachable:
  assumes inv: "tree_inv g f s t st" and emp: "heap_empty g (heap st)"
    and r: "residual_reachable g f s v"
  shows "heap st v = POST_HEAP"
proof -
  have post: "heap st x = POST_HEAP" if "heap st x \<noteq> PRE_HEAP" for x
  proof -
    have "x \<in> set (nodes g)" using inv that unfolding tree_inv_def by blast
    then show ?thesis using heap_empty_no_in [OF emp] that by (cases "heap st x") auto
  qed
  have s: "heap st s = POST_HEAP"
    using inv post unfolding tree_inv_def by (metis hstate.distinct(1))
  have step: "heap st y = POST_HEAP" if "heap st x = POST_HEAP" "res_step g f x y" for x y
  proof -
    from that(2) obtain e where "res_arc g f e x y" by (auto simp: res_step_def)
    then have "heap st y \<noteq> PRE_HEAP" using inv that(1) unfolding tree_inv_def by blast
    then show ?thesis by (rule post)
  qed
  from r show ?thesis
    unfolding residual_reachable_def
    by (induction rule: rtranclp_induct) (auto intro: s step)
qed

lemma dijkstra_run_found:
  assumes wf: "wf_digraph g" and s: "s \<in> set (nodes g)"
  shows "fst (dijkstra_run g f l pot prd dst s t) \<longleftrightarrow> residual_reachable g f s t"
proof -
  let ?st = "dijkstra_loop g f l pot t (dijkstra_start prd dst s)"
  have inv: "tree_inv g f s t ?st"
    and ex: "heap_empty g (heap ?st) \<or> heap_top g (heap ?st) = t"
    using tree_inv_loop [OF wf s] by blast+
  have b: "fst (dijkstra_run g f l pot prd dst s t) \<longleftrightarrow> \<not> heap_empty g (heap ?st)"
    by (simp add: dijkstra_run_alt Let_def)
  show ?thesis
  proof (cases "heap_empty g (heap ?st)")
    case True
    have "heap ?st t \<noteq> POST_HEAP" using inv unfolding tree_inv_def by blast
    then have "\<not> residual_reachable g f s t"
      using closed_reachable [OF inv True] by blast
    then show ?thesis using b True by simp
  next
    case False
    then have "heap ?st t = IN_HEAP (heap_prio g (heap ?st))"
      using ex heap_top_state [OF False] by auto
    then have "\<exists>p. chain g f (d_pred ?st) (heap ?st) s t p"
      using inv unfolding tree_inv_def by (metis hstate.distinct(1))
    then show ?thesis using b False chain_reachable by blast
  qed
qed

section \<open>Augmenting along the predecessor chain\<close>

lemma res_arc_fun:
  "res_arc g f e u v \<Longrightarrow> res_arc g f e x y \<Longrightarrow> x = u \<and> y = v"
  by (auto simp: res_arc_def)

lemma chain_source_nil:
  "chain g f prd hp s s p \<Longrightarrow> p = []"
  by (cases rule: chain.cases) auto

lemma chain_det:
  "chain g f prd hp s v p \<Longrightarrow> chain g f prd hp s v p' \<Longrightarrow> p = p'"
proof (induction arbitrary: p' rule: chain.induct)
  case chain_source
  then show ?case using chain_source_nil by blast
next
  case (chain_arc u p v e)
  from chain_arc.prems show ?case
  proof (cases rule: chain.cases)
    case chain_source
    then show ?thesis using chain_arc.hyps by simp
  next
    case (chain_arc u' q e')
    then have "e' = e" using chain_arc.hyps(3) by simp
    then have "u' = u" using res_arc_fun chain_arc(5) chain_arc.hyps(4) by blast
    then have "p = q" using chain_arc.IH chain_arc(2) by simp
    then show ?thesis using chain_arc(1) \<open>e' = e\<close> by simp
  qed
qed

lemma chain_mem:
  "chain g f prd hp s w p \<Longrightarrow> e \<in> set p \<Longrightarrow>
   \<exists>x y q. res_arc g f e x y \<and> chain g f prd hp s y (e # q) \<and> length (e # q) \<le> length p"
proof (induction rule: chain.induct)
  case chain_source
  then show ?case by simp
next
  case (chain_arc u p v e')
  show ?case
  proof (cases "e = e'")
    case True
    have "chain g f prd hp s v (e' # p)"
      using chain_arc.hyps by (intro chain.chain_arc)
    then show ?thesis using True chain_arc.hyps(4) by auto
  next
    case False
    then have "e \<in> set p" using chain_arc.prems by simp
    from chain_arc.IH [OF this] obtain x y q where
      "res_arc g f e x y" "chain g f prd hp s y (e # q)" "length (e # q) \<le> length p"
      by blast
    then have "res_arc g f e x y \<and> chain g f prd hp s y (e # q) \<and>
      length (e # q) \<le> length (e' # p)" by simp
    then show ?thesis by blast
  qed
qed

lemma chain_distinct:
  "chain g f prd hp s v p \<Longrightarrow> distinct p"
proof (induction rule: chain.induct)
  case chain_source
  show ?case by simp
next
  case (chain_arc u p v e)
  have "e \<notin> set p"
  proof
    assume "e \<in> set p"
    from chain_mem [OF chain_arc.hyps(1) this] obtain x y q where
      q: "res_arc g f e x y" "chain g f prd hp s y (e # q)" "length (e # q) \<le> length p"
      by blast
    have "y = v" using res_arc_fun [OF chain_arc.hyps(4) q(1)] by simp
    moreover have "chain g f prd hp s v (e # p)"
      using chain_arc.hyps by (intro chain.chain_arc)
    ultimately have "e # q = e # p" using chain_det q(2) by blast
    then show False using q(3) by simp
  qed
  then show ?case using chain_arc.IH by simp
qed

lemma augment_chain_gen:
  "chain g f prd hp s v p \<Longrightarrow> prd s = None \<Longrightarrow>
   augment g prd v h = Some (\<lambda>a. if a \<in> set p then 1 - f a else h a)"
proof (induction arbitrary: h rule: chain.induct)
  case chain_source
  then show ?case by (simp add: augment.simps)
next
  case (chain_arc u p v e)
  show ?case
  proof (cases "f e = 0")
    case True
    then have ends: "source g e = u" "target g e = v"
      using chain_arc.hyps(4) by (auto simp: res_arc_def)
    have "augment g prd v h = augment g prd u (h(e := 1))"
      using chain_arc.hyps(3) ends by (subst augment.simps) simp
    also have "\<dots> = Some (\<lambda>a. if a \<in> set p then 1 - f a else (h(e := 1)) a)"
      by (rule chain_arc.IH [OF chain_arc.prems])
    finally show ?thesis using True by (auto intro!: ext)
  next
    case False
    then have ends: "target g e = u" "source g e = v" "f e = 1"
      using chain_arc.hyps(4) by (auto simp: res_arc_def)
    have "augment g prd v h = augment g prd u (h(e := 0))"
      using chain_arc.hyps(3,5) ends by (subst augment.simps) auto
    also have "\<dots> = Some (\<lambda>a. if a \<in> set p then 1 - f a else (h(e := 0)) a)"
      by (rule chain_arc.IH [OF chain_arc.prems])
    finally show ?thesis using ends(3) by (auto intro!: ext)
  qed
qed

lemma augment_chain:
  "chain g f prd hp s v p \<Longrightarrow> prd s = None \<Longrightarrow> augment g prd v f = Some (flipped f p)"
  by (simp add: augment_chain_gen flipped_def)

subsection \<open>Conservation of the flow\<close>

lemma sum_list_update:
  "distinct xs \<Longrightarrow>
   sum_list (map (h(e := c)) (filter P xs)) =
   sum_list (map h (filter P xs)) + (if e \<in> set xs \<and> P e then c - h e else (0::int))"
  by (induction xs) auto

lemma inflow_update:
  "distinct (arcs g) \<Longrightarrow> e \<in> set (arcs g) \<Longrightarrow>
   inflow g (h(e := c)) n = inflow g h n + (if target g e = n then c - h e else 0)"
  by (simp add: inflow_def inArcs_def sum_list_update)

lemma outflow_update:
  "distinct (arcs g) \<Longrightarrow> e \<in> set (arcs g) \<Longrightarrow>
   outflow g (h(e := c)) n = outflow g h n + (if source g e = n then c - h e else 0)"
  by (simp add: outflow_def outArcs_def sum_list_update)

lemma flipped_Cons: "flipped f (e # p) = (flipped f p)(e := 1 - f e)"
  by (auto simp: flipped_def)

lemma excess_flipped:
  assumes "chain g f prd hp s v p" "distinct (arcs g)"
  shows "inflow g (flipped f p) n - outflow g (flipped f p) n =
         inflow g f n - outflow g f n + ((if n = v then 1 else 0) - (if n = s then 1 else 0))"
  using assms(1)
proof (induction rule: chain.induct)
  case chain_source
  show ?case by (simp add: flipped_def)
next
  case (chain_arc u p v e)
  have "chain g f prd hp s v (e # p)"
    using chain_arc.hyps by (intro chain.chain_arc)
  then have "e \<notin> set p" using chain_distinct by fastforce
  then have same: "flipped f p e = f e" by (simp add: flipped_def)
  have e: "e \<in> set (arcs g)" using chain_arc.hyps(4) by (simp add: res_arc_def)
  have i: "inflow g (flipped f (e # p)) n =
      inflow g (flipped f p) n + (if target g e = n then 1 - f e - f e else 0)"
    by (simp only: flipped_Cons inflow_update [OF assms(2) e] same)
  have o: "outflow g (flipped f (e # p)) n =
      outflow g (flipped f p) n + (if source g e = n then 1 - f e - f e else 0)"
    by (simp only: flipped_Cons outflow_update [OF assms(2) e] same)
  show ?case
  proof (cases "f e = 0")
    case True
    then have ends: "source g e = u" "target g e = v"
      using chain_arc.hyps(4) by (auto simp: res_arc_def)
    show ?thesis
      unfolding i o using chain_arc.IH chain_arc.hyps(5) True ends by auto
  next
    case False
    then have ends: "target g e = u" "source g e = v" "f e = 1"
      using chain_arc.hyps(4) by (auto simp: res_arc_def)
    show ?thesis
      unfolding i o using chain_arc.IH chain_arc.hyps(5) ends by auto
  qed
qed

lemma dijkstra_run_True:
  assumes wf: "wf_digraph g" and s: "s \<in> set (nodes g)"
    and run: "dijkstra_run g f l pot prd dst s t = (True, pot', prd', dst')"
  shows "\<exists>st. st = dijkstra_loop g f l pot t (dijkstra_start prd dst s) \<and>
           tree_inv g f s t st \<and> \<not> heap_empty g (heap st) \<and> heap_top g (heap st) = t \<and>
           prd' = d_pred st \<and> dst' = d_dist st \<and>
           pot' = fold (\<lambda>x p. p(x := wrap32 (p x + wrap32 (d_dist st x - heap_prio g (heap st)))))
                    (proc_nodes st) pot"
  using run tree_inv_loop [OF wf s, of f t l pot prd dst]
  by (auto simp: dijkstra_run_alt Let_def split: if_splits)

lemma tree_inv_target_chain:
  assumes "tree_inv g f s t st" "\<not> heap_empty g (heap st)" "heap_top g (heap st) = t"
  shows "\<exists>p. chain g f (d_pred st) (heap st) s t p" and "d_pred st s = None"
proof -
  have "heap st t = IN_HEAP (heap_prio g (heap st))"
    using heap_top_state [OF assms(2)] assms(3) by simp
  then show "\<exists>p. chain g f (d_pred st) (heap st) s t p"
    using assms(1) unfolding tree_inv_def by (metis hstate.distinct(1))
  show "d_pred st s = None" using assms(1) unfolding tree_inv_def by blast
qed


lemma findFlow_step_flow:
  assumes wf: "wf_digraph g" and s: "source_node sb \<in> set (nodes g)"
    and step: "findFlow_step g l sb = Some (True, sb')"
  shows "\<exists>p hp. chain g (flow sb) (pred sb') hp (source_node sb) (target_node sb) p \<and>
           flow sb' = flipped (flow sb) p"
proof -
  obtain b pot' prd' dst' where run:
    "dijkstra_run g (flow sb) l (potential sb) (pred sb) (dist sb) (source_node sb) (target_node sb)
      = (b, pot', prd', dst')"
    by (metis prod_cases4)
  have b: "b" using step run by (auto simp: findFlow_step_def split: if_splits)
  have run': "dijkstra_run g (flow sb) l (potential sb) (pred sb) (dist sb) (source_node sb)
      (target_node sb) = (True, pot', prd', dst')"
    using run b by simp
  from dijkstra_run_True [OF wf s run'] obtain st where
    st: "tree_inv g (flow sb) (source_node sb) (target_node sb) st"
      "\<not> heap_empty g (heap st)" "heap_top g (heap st) = target_node sb" "prd' = d_pred st"
    by blast
  from tree_inv_target_chain [OF st(1-3)] obtain p where
    p: "chain g (flow sb) prd' (heap st) (source_node sb) (target_node sb) p"
      "prd' (source_node sb) = None"
    unfolding st(4) by blast
  from augment_chain [OF p] have "pred sb' = prd'" "flow sb' = flipped (flow sb) p"
    using step run b by (auto simp: findFlow_step_def)
  then show ?thesis using p(1) by blast
qed

lemma flow_inv_step:
  assumes wf: "wf_digraph g" and s: "source_node sb \<in> set (nodes g)"
    and inv: "flow_inv g sb" and step: "findFlow_step g l sb = Some (True, sb')"
  shows "flow_inv g sb'"
proof -
  from findFlow_step_flow [OF wf s step] obtain p hp where
    p: "chain g (flow sb) (pred sb') hp (source_node sb) (target_node sb) p"
      "flow sb' = flipped (flow sb) p"
    by blast
  have d: "distinct (arcs g)" using wf by (simp add: wf_digraph_def)
  have frame: "target_node sb' = target_node sb" "source_node sb' = source_node sb"
    "path_num sb' = path_num sb + 1"
    using findFlow_step_target [OF step] findFlow_step_path_num [OF step] by simp_all
  have "\<forall>a \<in> set (arcs g). flow sb' a = 0 \<or> flow sb' a = 1"
    using inv unfolding flow_inv_def p(2) flipped_def by auto
  moreover have "inflow g (flow sb') n - outflow g (flow sb') n =
      path_num sb' * ((if n = target_node sb' then 1 else 0) - (if n = source_node sb' then 1 else 0))"
    for n
  proof -
    define d :: int where
      "d = (if n = target_node sb then 1 else 0) - (if n = source_node sb then 1 else 0)"
    have "inflow g (flow sb) n - outflow g (flow sb) n = path_num sb * d"
      using inv unfolding flow_inv_def d_def by blast
    moreover have "inflow g (flipped (flow sb) p) n - outflow g (flipped (flow sb) p) n =
        inflow g (flow sb) n - outflow g (flow sb) n + d"
      unfolding d_def by (rule excess_flipped [OF p(1) d])
    ultimately show ?thesis
      unfolding p(2) frame d_def [symmetric] by (simp add: algebra_simps)
  qed
  ultimately show ?thesis unfolding flow_inv_def by blast
qed

lemma sum_list_zero: "(\<And>x. x \<in> set xs \<Longrightarrow> f x = (0::int)) \<Longrightarrow> sum_list (map f xs) = 0"
  by (induction xs) auto

lemma flow_inv_entry:
  "flow_inv g (findFlow_entry t (init g s sb))"
proof -
  have "inflow g (flow (findFlow_entry t (init g s sb))) n = 0" for n
    unfolding inflow_def by (rule sum_list_zero) (simp add: inArcs_def)
  moreover have "outflow g (flow (findFlow_entry t (init g s sb))) n = 0" for n
    unfolding outflow_def by (rule sum_list_zero) (simp add: outArcs_def)
  ultimately show ?thesis unfolding flow_inv_def by simp
qed

lemma flow_inv_iter:
  assumes wf: "wf_digraph g"
  shows "source_node sb \<in> set (nodes g) \<Longrightarrow> flow_inv g sb \<Longrightarrow>
         findFlow_iter g l n sb = Some sb' \<Longrightarrow>
         flow_inv g sb' \<and> source_node sb' = source_node sb \<and> target_node sb' = target_node sb \<and>
         path_num sb' = path_num sb + int n"
proof (induction n arbitrary: sb)
  case 0
  then show ?case by simp
next
  case (Suc n)
  from Suc.prems(3) obtain sb1 where st: "findFlow_step g l sb = Some (True, sb1)"
    and it: "findFlow_iter g l n sb1 = Some sb'"
    by (auto split: option.splits if_splits)
  have frame: "target_node sb1 = target_node sb" "source_node sb1 = source_node sb"
    "path_num sb1 = path_num sb + 1"
    using findFlow_step_target [OF st] findFlow_step_path_num [OF st] by simp_all
  have "flow_inv g sb1" by (rule flow_inv_step [OF wf Suc.prems(1,2) st])
  from Suc.IH [OF _ this it] Suc.prems(1) frame show ?case by simp
qed

section \<open>Distances and reduced costs\<close>





subsection \<open>Arithmetic within the range of the length type\<close>



























section \<open>Optimality of the flow\<close>







subsection \<open>Flows of path sets\<close>








section \<open>Decomposing the flow into paths\<close>












subsection \<open>Simple paths\<close>






section \<open>The claims\<close>







text \<open>
  C3 on the digraph \<open>zero_cycle\<close> with \<open>k = 2\<close>: the run finds two paths, s\<rightarrow>a\<rightarrow>t and
  s\<rightarrow>b\<rightarrow>t, while the arcs a\<rightarrow>b and b\<rightarrow>a carry flow 1 and lie on neither path. With the
  arc order of \<open>zero_cycle_alt\<close> the first path is s\<rightarrow>a\<rightarrow>b\<rightarrow>a\<rightarrow>t, which visits a twice.
\<close>
theorem findPaths_misses_flow_arcs:
  "map_option fst (run zero_cycle zero_cycle_length 0 3 2 blank) = Some 2 \<and>
   paths (snd (the (run zero_cycle zero_cycle_length 0 3 2 blank))) = [[0, 4], [3, 2]] \<and>
   flow (snd (the (run zero_cycle zero_cycle_length 0 3 2 blank))) 1 = 1 \<and>
   flow (snd (the (run zero_cycle zero_cycle_length 0 3 2 blank))) 5 = 1 \<and>
   paths (snd (the (run zero_cycle_alt zero_cycle_length 0 3 2 blank))) = [[0, 1, 5, 4], [3, 2]] \<and>
   \<not> simple_path zero_cycle_alt 0 [0, 1, 5, 4] 3"
  by code_simp

text \<open>
  C4, as stated, fails: with \<open>s = t\<close> one pass of the loop counts a path and leaves the
  flow zero, so the net flow out of \<open>s\<close> is 0 and \<^verbatim>\<open>path_num\<close> is 1.
\<close>
theorem flow_value_counterexample:
  "path_num (the (findFlow_iter two_nodes unit_length 1
                    (findFlow_entry 0 (init two_nodes 0 blank)))) = 1 \<and>
   outflow two_nodes (flow (the (findFlow_iter two_nodes unit_length 1
                    (findFlow_entry 0 (init two_nodes 0 blank))))) 0
   - inflow two_nodes (flow (the (findFlow_iter two_nodes unit_length 1
                    (findFlow_entry 0 (init two_nodes 0 blank))))) 0 = 0"
  by code_simp

text \<open>
  C4, amended: after any number of completed passes of the augmentation loop the flow is 0 or 1
  on every arc, the flow into every node other than \<open>s\<close> and \<open>t\<close> equals the flow out of
  it, the net flow out of \<open>s\<close> equals the net flow into \<open>t\<close>, \<^verbatim>\<open>path_num\<close> is the
  number of passes, and for \<open>s \<noteq> t\<close> the net flow out of \<open>s\<close> equals \<^verbatim>\<open>path_num\<close>.
\<close>
theorem flow_conservation:
  assumes "wf_digraph g" "s \<in> set (nodes g)"
    and "findFlow_iter g l n (findFlow_entry t (init g s sb)) = Some sb'"
  shows "(\<forall>a \<in> set (arcs g). flow sb' a = 0 \<or> flow sb' a = 1) \<and>
         (\<forall>v. v \<noteq> s \<and> v \<noteq> t \<longrightarrow> inflow g (flow sb') v = outflow g (flow sb') v) \<and>
         outflow g (flow sb') s - inflow g (flow sb') s
           = inflow g (flow sb') t - outflow g (flow sb') t \<and>
         (s \<noteq> t \<longrightarrow> outflow g (flow sb') s - inflow g (flow sb') s = path_num sb') \<and>
         path_num sb' = int n"
proof -
  have "flow_inv g sb' \<and> source_node sb' = s \<and> target_node sb' = t \<and> path_num sb' = int n"
    using flow_inv_iter [OF assms(1) _ flow_inv_entry assms(3)] assms(2) by simp
  then have fi: "\<forall>a \<in> set (arcs g). flow sb' a = 0 \<or> flow sb' a = 1"
    and ex: "\<And>v. inflow g (flow sb') v - outflow g (flow sb') v =
          path_num sb' * ((if v = t then 1 else 0) - (if v = s then 1 else 0))"
    and pn: "path_num sb' = int n"
    unfolding flow_inv_def by auto
  have "inflow g (flow sb') v = outflow g (flow sb') v" if "v \<noteq> s \<and> v \<noteq> t" for v
    using ex [of v] that by simp
  moreover have "outflow g (flow sb') s - inflow g (flow sb') s
      = inflow g (flow sb') t - outflow g (flow sb') t"
    using ex [of s] ex [of t] by (cases "s = t") simp_all
  moreover have "outflow g (flow sb') s - inflow g (flow sb') s = path_num sb'" if "s \<noteq> t"
    using ex [of s] that by simp
  ultimately show ?thesis using fi pn by blast
qed

theorem flow_conservation_witness:
  "wf_digraph two_nodes \<and> 0 \<in> set (nodes two_nodes) \<and> (0::nat) \<noteq> 1 \<and>
   (\<exists>sb'. findFlow_iter two_nodes unit_length 1 (findFlow_entry 1 (init two_nodes 0 blank)) = Some sb' \<and>
      flow sb' 0 = 1 \<and>
      outflow two_nodes (flow sb') 0 - inflow two_nodes (flow sb') 0
        = inflow two_nodes (flow sb') 1 - outflow two_nodes (flow sb') 1 \<and>
      outflow two_nodes (flow sb') 0 - inflow two_nodes (flow sb') 0 = path_num sb' \<and>
      path_num sb' = 1)"
proof -
  have wf: "wf_digraph two_nodes" by (simp add: wf_digraph_def two_nodes_def)
  have s: "0 \<in> set (nodes two_nodes)" by (simp add: two_nodes_def)
  have "\<not> Option.is_none
    (findFlow_iter two_nodes unit_length 1 (findFlow_entry 1 (init two_nodes 0 blank)))"
    by code_simp
  then obtain sb' where
    h: "findFlow_iter two_nodes unit_length 1 (findFlow_entry 1 (init two_nodes 0 blank)) = Some sb'"
    by (auto simp: Option.is_none_def)
  have "flow (the (findFlow_iter two_nodes unit_length 1
      (findFlow_entry 1 (init two_nodes 0 blank)))) 0 = 1"
    by code_simp
  then have f: "flow sb' 0 = 1" using h by simp
  show ?thesis
    using wf s h f flow_conservation [OF wf s h] by simp
qed

text \<open>
  C5: the search returns true if and only if the target is reachable from the source in the
  residual graph of the current flow, and when it returns false the potential map is the one
  it was given.
\<close>
theorem dijkstra_run_reachable:
  assumes "wf_digraph g" "s \<in> set (nodes g)"
  shows "(fst (dijkstra_run g f l pot prd dst s t) \<longleftrightarrow> residual_reachable g f s t) \<and>
         (\<not> fst (dijkstra_run g f l pot prd dst s t) \<longrightarrow>
            fst (snd (dijkstra_run g f l pot prd dst s t)) = pot)"
proof -
  have "\<not> fst (dijkstra_run g f l pot prd dst s t) \<longrightarrow>
            fst (snd (dijkstra_run g f l pot prd dst s t)) = pot"
    by (simp add: dijkstra_run_alt Let_def)
  then show ?thesis using dijkstra_run_found [OF assms] by blast
qed

theorem dijkstra_run_reachable_witness:
  "wf_digraph two_nodes \<and> 0 \<in> set (nodes two_nodes) \<and>
   \<not> fst (dijkstra_run two_nodes (\<lambda>e. 1) unit_length (\<lambda>n. 0) (\<lambda>n. None) (\<lambda>n. 0) 0 1) \<and>
   \<not> residual_reachable two_nodes (\<lambda>e. 1) 0 1 \<and>
   fst (snd (dijkstra_run two_nodes (\<lambda>e. 1) unit_length (\<lambda>n. 0) (\<lambda>n. None) (\<lambda>n. 0) 0 1))
     = (\<lambda>n. 0)"
proof -
  have wf: "wf_digraph two_nodes" by (simp add: wf_digraph_def two_nodes_def)
  have s: "0 \<in> set (nodes two_nodes)" by (simp add: two_nodes_def)
  have nf: "\<not> fst (dijkstra_run two_nodes (\<lambda>e. 1) unit_length (\<lambda>n. 0) (\<lambda>n. None)
                     (\<lambda>n. 0) 0 1)"
    by code_simp
  show ?thesis
    using wf s nf dijkstra_run_reachable [OF wf s, of "\<lambda>e. 1" unit_length "\<lambda>n. 0" "\<lambda>n. None"
        "\<lambda>n. 0" 1]
    by blast
qed

text \<open>
  C6, as stated, fails: with \<open>s = t\<close> the search succeeds at once (the source is on top of
  the heap and is the target), so every pass of the loop counts a path.
\<close>
theorem run_same_node_counterexample:
  "map_option fst (run two_nodes unit_length 0 0 2 blank) = Some 2"
  by code_simp

text \<open>
  C6, amended: for every digraph with \<open>s\<close> among its nodes and every \<open>k \<ge> 0\<close>,
  \<^verbatim>\<open>run(s, s, k)\<close> returns \<open>k\<close>.
\<close>
theorem run_same_node:
  assumes "s \<in> set (nodes g)" "0 \<le> k"
  shows "\<exists>sb'. run g l s s k sb = Some (k, sb')"
proof -
  have "\<exists>sb1. findFlow g l s k (init g s sb) = Some sb1 \<and> path_num sb1 = k \<and>
          source_node sb1 = source_node (findFlow_entry s (init g s sb)) \<and>
          target_node sb1 = source_node (findFlow_entry s (init g s sb))"
    unfolding findFlow_def using assms by (intro findFlow_loop_same) simp_all
  then obtain sb1 where sb1: "findFlow g l s k (init g s sb) = Some sb1" "path_num sb1 = k"
    "source_node sb1 = s" "target_node sb1 = s"
    by auto
  obtain ps where "find_paths_loop g s s (nat k)
      (fold (\<lambda>a r. r(a := flow sb1 a)) (arcs g) (\<lambda>a. 0)) [] = Some ps"
    using find_paths_loop_same by blast
  then show ?thesis
    using sb1 by (simp add: run_def findPaths_def)
qed

theorem run_same_node_witness:
  "(0::nat) \<in> set (nodes two_nodes) \<and> (0::int) \<le> 2 \<and>
   (\<exists>sb'. run two_nodes unit_length 0 0 2 blank = Some (2, sb'))"
  using run_same_node [of 0 two_nodes 2 unit_length blank] by (simp add: two_nodes_def)




text \<open>
  C8: \<^verbatim>\<open>run(s, t, k)\<close> gives the same resulting state and return value as
  \<^verbatim>\<open>init(s); findFlow(t, k); findPaths();\<close> followed by returning \<^verbatim>\<open>path_num\<close>.
\<close>
theorem run_refines_spec: "run g l s t k sb = run_spec g l s t k sb"
  by (simp add: run_def run_spec_def split: option.splits)

text \<open>
  C9: \<^verbatim>\<open>findPaths\<close> does not modify the flow map: whenever it returns, the flow map is
  the one it was given, so after \<^verbatim>\<open>run\<close> the flow map is the one \<^verbatim>\<open>findFlow\<close> computed.
\<close>
theorem findPaths_keeps_flow:
  "(findPaths g sb = Some sb' \<longrightarrow> flow sb' = flow sb) \<and>
   (run g l s t k sb0 = Some (n, sb2) \<longrightarrow>
      (\<exists>sb1. findFlow g l t k (init g s sb0) = Some sb1 \<and> flow sb2 = flow sb1))"
  by (auto simp: findPaths_def run_def Let_def split: option.splits)

theorem findPaths_keeps_flow_witness:
  "\<exists>sb' n sb2 sb1.
     findPaths two_nodes (blank\<lparr>flow := (\<lambda>e. 1), target_node := 1, path_num := 1\<rparr>) = Some sb' \<and>
     flow sb' = (\<lambda>e. 1) \<and>
     run two_nodes unit_length 0 1 2 blank = Some (n, sb2) \<and>
     findFlow two_nodes unit_length 1 2 (init two_nodes 0 blank) = Some sb1 \<and> flow sb2 = flow sb1"
proof -
  have "\<not> Option.is_none
    (findPaths two_nodes (blank\<lparr>flow := (\<lambda>e. 1), target_node := 1, path_num := 1\<rparr>))"
    by code_simp
  then obtain sb' where
    h: "findPaths two_nodes (blank\<lparr>flow := (\<lambda>e. 1), target_node := 1, path_num := 1\<rparr>) = Some sb'"
    by (auto simp: Option.is_none_def)
  have "\<not> Option.is_none (run two_nodes unit_length 0 1 2 blank)"
    by code_simp
  then obtain n sb2 where h2: "run two_nodes unit_length 0 1 2 blank = Some (n, sb2)"
    by (auto simp: Option.is_none_def)
  show ?thesis
    using h h2
      findPaths_keeps_flow [of two_nodes "blank\<lparr>flow := (\<lambda>e. 1), target_node := 1, path_num := 1\<rparr>"
        sb' unit_length 0 1 2 blank n sb2]
    by auto
qed

text \<open>
  C10: after \<^verbatim>\<open>init(s)\<close> and any number of completed passes of the augmentation loop of
  \<^verbatim>\<open>findFlow(t, k)\<close>, and after \<^verbatim>\<open>findFlow(t, k)\<close> itself, the potential of the target
  node is 0: the target is never in the list of processed nodes (\<open>target_not_processed\<close>),
  and the potential update touches no other node.
\<close>
theorem target_potential_zero:
  assumes "t \<in> set (nodes g)"
  shows "(findFlow_iter g l n (findFlow_entry t (init g s sb)) = Some sb' \<longrightarrow> potential sb' t = 0) \<and>
         (findFlow g l t k (init g s sb) = Some sb'' \<longrightarrow> potential sb'' t = 0)"
proof (intro conjI impI)
  assume "findFlow_iter g l n (findFlow_entry t (init g s sb)) = Some sb'"
  from findFlow_iter_target [OF this] assms show "potential sb' t = 0" by simp
next
  assume "findFlow g l t k (init g s sb) = Some sb''"
  then have "findFlow_loop g l k (findFlow_entry t (init g s sb)) = Some sb''"
    by (simp add: findFlow_def)
  from findFlow_loop_target [OF this] assms show "potential sb'' t = 0" by simp
qed

theorem target_potential_zero_witness:
  "1 \<in> set (nodes two_nodes) \<and>
   (\<exists>sb' sb''.
      findFlow_iter two_nodes unit_length 1 (findFlow_entry 1 (init two_nodes 0 blank)) = Some sb' \<and>
      potential sb' 1 = 0 \<and>
      findFlow two_nodes unit_length 1 2 (init two_nodes 0 blank) = Some sb'' \<and>
      potential sb'' 1 = 0)"
proof -
  have "\<not> Option.is_none
    (findFlow_iter two_nodes unit_length 1 (findFlow_entry 1 (init two_nodes 0 blank)))"
    by code_simp
  then obtain sb' where
    h: "findFlow_iter two_nodes unit_length 1 (findFlow_entry 1 (init two_nodes 0 blank)) = Some sb'"
    by (auto simp: Option.is_none_def)
  have "\<not> Option.is_none (findFlow two_nodes unit_length 1 2 (init two_nodes 0 blank))"
    by code_simp
  then obtain sb'' where
    h2: "findFlow two_nodes unit_length 1 2 (init two_nodes 0 blank) = Some sb''"
    by (auto simp: Option.is_none_def)
  have n: "(1::nat) \<in> set (nodes two_nodes)" by (simp add: two_nodes_def)
  show ?thesis
    using n h h2 target_potential_zero [OF n, of unit_length 1 0 blank sb' 2 sb''] by blast
qed

end
